theory Spec2Isabelle
  imports Complex_Main "HOL-Library.Sublist" "HOL-Library.AList" "HOL-Library.Product_Lexorder"
begin

section \<open>Strings\<close>

text \<open>
  Python's \<open>str\<close> is modelled as \<open>string\<close>: a \<open>char\<close> is a code point up to U+00FF.
  The case mapping, the white space of \<open>strip\<close> and the classes \<open>\w\<close> and \<open>\d\<close> are
  those of Python on these code points; text with code points beyond U+00FF is outside
  the model.
\<close>

definition code :: "char \<Rightarrow> nat" where
  "code c = of_char c"

definition is_upper :: "char \<Rightarrow> bool" where
  "is_upper c = (65 \<le> code c \<and> code c \<le> 90)"

definition is_lower :: "char \<Rightarrow> bool" where
  "is_lower c = (97 \<le> code c \<and> code c \<le> 122)"

definition is_digit :: "char \<Rightarrow> bool" where
  "is_digit c = (48 \<le> code c \<and> code c \<le> 57)"

definition is_alpha :: "char \<Rightarrow> bool" where
  "is_alpha c = (is_upper c \<or> is_lower c)"

definition is_alnum :: "char \<Rightarrow> bool" where
  "is_alnum c = (is_alpha c \<or> is_digit c)"

text \<open>
  The class \<open>\w\<close>, whose changes are the positions of \<open>\b\<close>: the ASCII letters and
  digits, the underscore, and the letters and numerals of U+00AA to U+00FF.
\<close>

definition is_word :: "char \<Rightarrow> bool" where
  "is_word c =
     (is_alnum c \<or> c = CHR ''_''
      \<or> code c = 170 \<or> code c = 178 \<or> code c = 179 \<or> code c = 181
      \<or> code c = 185 \<or> code c = 186 \<or> (188 \<le> code c \<and> code c \<le> 190)
      \<or> (192 \<le> code c \<and> code c \<le> 214) \<or> (216 \<le> code c \<and> code c \<le> 246)
      \<or> 248 \<le> code c)"

text \<open>
  What \<open>str.strip()\<close> removes: tab, line feed, VT, FF, CR, FS, GS, RS, US, space, NEL
  (U+0085) and the no-break space (U+00A0).
\<close>

definition is_space :: "char \<Rightarrow> bool" where
  "is_space c =
     ((9 \<le> code c \<and> code c \<le> 13) \<or> (28 \<le> code c \<and> code c \<le> 32)
      \<or> code c = 133 \<or> code c = 160)"

text \<open>The upper-case letters are A to Z, U+00C0 to U+00D6 and U+00D8 to U+00DE.\<close>

definition lower_char :: "char \<Rightarrow> char" where
  "lower_char c =
     (if is_upper c \<or> (192 \<le> code c \<and> code c \<le> 214) \<or> (216 \<le> code c \<and> code c \<le> 222)
      then char_of (code c + 32) else c)"

text \<open>\<open>s.lower()\<close>\<close>

definition lower :: "string \<Rightarrow> string" where
  "lower s = map lower_char s"

text \<open>\<open>s.strip()\<close>\<close>

definition strip :: "string \<Rightarrow> string" where
  "strip s = rev (dropWhile is_space (rev (dropWhile is_space s)))"

text \<open>\<open>s.rstrip('/')\<close>\<close>

definition rstrip_slash :: "string \<Rightarrow> string" where
  "rstrip_slash s = rev (dropWhile (\<lambda>c. c = CHR ''/'') (rev s))"

text \<open>\<open>s.split(sep)[0]\<close> for a separator of one character.\<close>

definition split_first :: "char \<Rightarrow> string \<Rightarrow> string" where
  "split_first sep s = takeWhile (\<lambda>c. c \<noteq> sep) s"

text \<open>
  \<open>s.replace(old, new)\<close> for a non-empty \<open>old\<close>: every occurrence, left to right,
  without overlap.
\<close>

fun replace :: "string \<Rightarrow> string \<Rightarrow> string \<Rightarrow> string" where
  "replace old new [] = []"
| "replace old new (c # cs) =
     (if prefix old (c # cs) then new @ replace old new (drop (length old - 1) cs)
      else c # replace old new cs)"

text \<open>\<open>pattern in s\<close>\<close>

definition str_in :: "string \<Rightarrow> string \<Rightarrow> bool" where
  "str_in pattern s = sublist pattern s"

section \<open>The regular expressions of the scrapers\<close>

text \<open>
  Every pattern the two scrapers compile is a sequence of greedy repetitions of one
  character class, with \<open>^\<close>, \<open>\b\<close>, \<open>$\<close> and one negative look-ahead. A pattern is the list
  of its items; matching tries, for each repetition, the longest count first and gives
  back one character at a time, as the backtracking matcher of \<open>re\<close> does.
\<close>

datatype item =
    Rep "char \<Rightarrow> bool" nat "nat option"
  | Caret
  | WordB
  | Dollar
  | NotAhead string

text \<open>One character of a class, one literal character, \<open>[...]+\<close>, and a literal string.\<close>

definition One :: "(char \<Rightarrow> bool) \<Rightarrow> item" where
  "One cls = Rep cls 1 (Some 1)"

definition Lit :: "char \<Rightarrow> item" where
  "Lit c = One (\<lambda>x. x = c)"

definition Plus :: "(char \<Rightarrow> bool) \<Rightarrow> item" where
  "Plus cls = Rep cls 1 None"

definition lits :: "string \<Rightarrow> item list" where
  "lits s = map Lit s"

text \<open>A literal character under \<open>re.I\<close>.\<close>

definition ILit :: "char \<Rightarrow> item" where
  "ILit c = One (\<lambda>x. lower_char x = lower_char c)"

fun first_some :: "(nat \<Rightarrow> 'a option) \<Rightarrow> nat list \<Rightarrow> 'a option" where
  "first_some f [] = None"
| "first_some f (k # ks) = (case f k of Some r \<Rightarrow> Some r | None \<Rightarrow> first_some f ks)"

definition word_at :: "char option \<Rightarrow> bool" where
  "word_at c = (case c of None \<Rightarrow> False | Some x \<Rightarrow> is_word x)"

definition next_char :: "string \<Rightarrow> char option" where
  "next_char s = (case s of [] \<Rightarrow> None | c # _ \<Rightarrow> Some c)"

text \<open>The counts a greedy repetition tries on \<open>s\<close>, in the order it tries them.\<close>

definition counts :: "(char \<Rightarrow> bool) \<Rightarrow> nat \<Rightarrow> nat option \<Rightarrow> string \<Rightarrow> nat list" where
  "counts cls lo hi s =
     (let run = length (takeWhile cls s);
          top = (case hi of None \<Rightarrow> run | Some h \<Rightarrow> min h run)
      in rev [lo ..< Suc top])"

text \<open>
  \<open>match_here p prev s\<close> matches \<open>p\<close> at the start of \<open>s\<close>, where \<open>prev\<close> is the
  character before \<open>s\<close> in the searched string (\<open>None\<close> at its start). The result is
  the text each item consumed.
\<close>

fun match_here :: "item list \<Rightarrow> char option \<Rightarrow> string \<Rightarrow> string list option" where
  "match_here [] prev s = Some []"
| "match_here (Caret # p) prev s =
     (if prev = None then map_option (Cons []) (match_here p prev s) else None)"
| "match_here (WordB # p) prev s =
     (if word_at prev \<noteq> word_at (next_char s)
      then map_option (Cons []) (match_here p prev s) else None)"
| "match_here (Dollar # p) prev s =
     (if s = [] \<or> s = [CHR 0x0A]
      then map_option (Cons []) (match_here p prev s) else None)"
| "match_here (NotAhead t # p) prev s =
     (if prefix t s then None else map_option (Cons []) (match_here p prev s))"
| "match_here (Rep cls lo hi # p) prev s =
     first_some
       (\<lambda>k. map_option (Cons (take k s))
               (match_here p (if k = 0 then prev else Some (s ! (k - 1))) (drop k s)))
       (counts cls lo hi s)"

text \<open>\<open>re.match(p, s)\<close>\<close>

definition re_match :: "item list \<Rightarrow> string \<Rightarrow> string list option" where
  "re_match p s = match_here p None s"

text \<open>\<open>re.search(p, s)\<close>: the match at the leftmost position that has one.\<close>

fun search_from :: "item list \<Rightarrow> char option \<Rightarrow> string \<Rightarrow> string list option" where
  "search_from p prev [] = match_here p prev []"
| "search_from p prev (c # cs) =
     (case match_here p prev (c # cs) of
        Some gs \<Rightarrow> Some gs
      | None \<Rightarrow> search_from p (Some c) cs)"

definition re_search :: "item list \<Rightarrow> string \<Rightarrow> string list option" where
  "re_search p s = search_from p None s"

text \<open>
  \<open>p.findall(s)\<close> for a pattern without groups: the matches from left to right, each
  search starting where the last match ended (one character further after an empty
  match).
\<close>

fun findall_from :: "item list \<Rightarrow> char option \<Rightarrow> string \<Rightarrow> string list" where
  "findall_from p prev [] =
     (case match_here p prev [] of Some gs \<Rightarrow> [concat gs] | None \<Rightarrow> [])"
| "findall_from p prev (c # cs) =
     (case match_here p prev (c # cs) of
        None \<Rightarrow> findall_from p (Some c) cs
      | Some gs \<Rightarrow>
          (let m = concat gs
           in if m = [] then [] # findall_from p (Some c) cs
              else m # findall_from p (Some (last m)) (drop (length m - 1) cs)))"

definition findall :: "item list \<Rightarrow> string \<Rightarrow> string list" where
  "findall p s = findall_from p None s"

section \<open>ContactFinder: validation and classification\<close>

text \<open>The class \<open>[A-Za-z0-9._%+-]\<close> of a local part.\<close>

definition local_char :: "char \<Rightarrow> bool" where
  "local_char c = (is_alnum c \<or> c \<in> set ''._%+-'')"

text \<open>The class \<open>[A-Za-z0-9.-]\<close> of a domain.\<close>

definition domain_char :: "char \<Rightarrow> bool" where
  "domain_char c = (is_alnum c \<or> c \<in> set ''.-'')"

text \<open>The class \<open>[A-Z|a-z]\<close>: the bar is a member of it.\<close>

definition tld_char :: "char \<Rightarrow> bool" where
  "tld_char c = (is_alpha c \<or> c = CHR ''|'')"

text \<open>\<open>^[a-zA-Z0-9._%+-]+@[a-zA-Z0-9.-]+\.[a-zA-Z]{2,}$\<close>\<close>

definition email_format :: "item list" where
  "email_format =
     [Caret, Plus local_char, Lit CHR ''@'', Plus domain_char, Lit CHR ''.'',
      Rep is_alpha 2 None, Dollar]"

definition skip_patterns :: "string list" where
  "skip_patterns =
     [''noreply'', ''no-reply'', ''donotreply'', ''mailer-daemon'',
      ''example.com'', ''example.org'', ''test.com'',
      ''.png'', ''.jpg'', ''.gif'', ''.svg'',
      ''wixpress'', ''sentry.io'', ''cloudflare'',
      ''privacy@'', ''abuse@'', ''postmaster@'', ''webmaster@'']"

text \<open>\<open>for pattern in patterns: if pattern in s: return ...\<close>\<close>

fun any_in :: "string list \<Rightarrow> string \<Rightarrow> bool" where
  "any_in [] s = False"
| "any_in (pattern # patterns) s = (if str_in pattern s then True else any_in patterns s)"

definition is_valid_email :: "string \<Rightarrow> bool" where
  "is_valid_email email =
     (if email = [] \<or> \<not> str_in ''@'' email then False
      else let email_lower = lower email
           in if any_in skip_patterns email_lower then False
              else if re_match email_format email = None then False
              else True)"

text \<open>The patterns of \<open>__init__\<close>; each is a literal (\<open>\.\<close> is the dot).\<close>

definition booking_patterns :: "item list list" where
  "booking_patterns =
     map lits [''booking'', ''guest'', ''podcast'', ''media'',
               ''inquir'', ''press'', ''interview'']"

definition host_patterns :: "item list list" where
  "host_patterns =
     map lits [''@gmail.com'', ''@yahoo.com'', ''@outlook.com'',
               ''@icloud.com'', ''@me.com'']"

text \<open>\<open>for pattern in patterns: if re.search(pattern, s): return ...\<close>\<close>

fun any_search :: "item list list \<Rightarrow> string \<Rightarrow> bool" where
  "any_search [] s = False"
| "any_search (pattern # patterns) s =
     (if re_search pattern s \<noteq> None then True else any_search patterns s)"

definition classify_email :: "string \<Rightarrow> string \<Rightarrow> string" where
  "classify_email email context =
     (let combined = lower (email @ '' '' @ context)
      in if any_search booking_patterns combined then ''booking''
         else if any_search host_patterns (lower email) then ''host''
         else if str_in ''producer'' combined \<or> str_in ''production'' combined
              then ''producer''
         else ''general'')"

section \<open>ContactFinder: scraping\<close>

record ContactResult =
  email :: string
  source_url :: string
  contact_type :: string
  confidence :: real

text \<open>
  What the scrapers take from outside: the HTTP session, the HTML parser, the URL
  parser and MD5. Any of the first three can raise; an exception is a value. \<open>exn\<close> is
  the class \<open>Exception\<close>, which is what the handlers of the scrapers catch; a cancellation
  of the task is outside the model.
\<close>

datatype exn = Exception string

record response =
  status :: int
  resp_text :: "exn + string"

text \<open>An \<open>a\<close> element that has an \<open>href\<close> attribute.\<close>

record anchor =
  href :: string
  get_text :: string
  css_class :: "string list"

text \<open>
  \<open>session_get url\<close> is \<open>self.session.get(url)\<close>; \<open>soup_a html\<close> is the list of
  the \<open>a\<close> elements with an \<open>href\<close> in \<open>BeautifulSoup(html, 'html.parser')\<close>, in
  document order; \<open>urlparse_netloc url\<close> is \<open>urlparse(url).netloc\<close>;
  \<open>md5_hexdigest s\<close> is \<open>hashlib.md5(s.encode()).hexdigest()\<close>.
\<close>

record env =
  session_get :: "string \<Rightarrow> exn + response"
  soup_a :: "string \<Rightarrow> exn + anchor list"
  urlparse_netloc :: "string \<Rightarrow> exn + string"
  md5_hexdigest :: "string \<Rightarrow> string"

text \<open>\<open>^mailto:\<close> under \<open>re.I\<close>\<close>

definition mailto_re_I :: "item list" where
  "mailto_re_I = Caret # map ILit ''mailto:''"

text \<open>\<open>\b[A-Za-z0-9._%+-]+@[A-Za-z0-9.-]+\.[A-Z|a-z]{2,7}\b\<close>\<close>

definition email_pattern :: "item list" where
  "email_pattern =
     [WordB, Plus local_char, Lit CHR ''@'', Plus domain_char, Lit CHR ''.'',
      Rep tld_char 2 (Some 7), WordB]"

text \<open>Method 1, the loop over the mailto links; \<open>contacts\<close> is the list built so far.\<close>

fun mailto_loop :: "string \<Rightarrow> anchor list \<Rightarrow> ContactResult list \<Rightarrow> ContactResult list" where
  "mailto_loop url [] contacts = contacts"
| "mailto_loop url (link # links) contacts =
     (let addr = strip (split_first CHR ''?'' (replace ''mailto:'' [] (href link)))
      in if is_valid_email addr
         then (let ctype = classify_email addr (get_text link)
               in mailto_loop url links
                    (contacts @
                     [\<lparr>email = lower addr, source_url = url, contact_type = ctype,
                       confidence = (if ctype = ''booking'' then 0.9 else 0.7)\<rparr>]))
         else mailto_loop url links contacts)"

text \<open>Method 2, the loop over the addresses found in the text.\<close>

fun text_loop :: "string \<Rightarrow> string list \<Rightarrow> ContactResult list \<Rightarrow> ContactResult list" where
  "text_loop url [] contacts = contacts"
| "text_loop url (addr # addrs) contacts =
     (if is_valid_email addr
      then (if \<not> list_ex (\<lambda>c. email c = lower addr) contacts
            then text_loop url addrs
                   (contacts @
                    [\<lparr>email = lower addr, source_url = url,
                      contact_type = classify_email addr [], confidence = 0.6\<rparr>])
            else text_loop url addrs contacts)
      else text_loop url addrs contacts)"

text \<open>
  The statements under \<open>try\<close>. Whatever raises there (the request, reading the body,
  the parser) raises before the first \<open>append\<close>, so \<open>contacts\<close> is still empty then.
\<close>

definition scrape_try :: "env \<Rightarrow> string \<Rightarrow> exn + ContactResult list" where
  "scrape_try e url =
     (case session_get e url of
        Inl x \<Rightarrow> Inl x
      | Inr resp \<Rightarrow>
          if status resp \<noteq> 200 then Inr []
          else (case resp_text resp of
                  Inl x \<Rightarrow> Inl x
                | Inr html \<Rightarrow>
                    (case soup_a e html of
                       Inl x \<Rightarrow> Inl x
                     | Inr anchors \<Rightarrow>
                         (let mailto_links =
                                filter (\<lambda>a. re_search mailto_re_I (href a) \<noteq> None) anchors;
                              contacts = mailto_loop url mailto_links [];
                              text_emails = findall email_pattern html
                          in Inr (text_loop url text_emails contacts)))))"

text \<open>\<open>except Exception\<close> logs a warning and falls through to \<open>return contacts\<close>.\<close>

definition scrape_page_for_emails :: "env \<Rightarrow> string \<Rightarrow> exn + ContactResult list" where
  "scrape_page_for_emails e url =
     (case scrape_try e url of Inl x \<Rightarrow> Inr [] | Inr contacts \<Rightarrow> Inr contacts)"

definition paths_to_check :: "string list" where
  "paths_to_check =
     [''/contact'', ''/contact-us'', ''/be-a-guest'', ''/guest'', ''/podcast'',
      ''/about'', ''/media'', ''/press'', ''/booking'', []]"

text \<open>The loop of \<open>_scan_website\<close>; an exception of a page scan would leave it.\<close>

fun scan_loop :: "env \<Rightarrow> string \<Rightarrow> string list \<Rightarrow> ContactResult list \<Rightarrow> exn + ContactResult list" where
  "scan_loop e base_url [] contacts = Inr contacts"
| "scan_loop e base_url (path # paths) contacts =
     (case scrape_page_for_emails e (rstrip_slash base_url @ path) of
        Inl x \<Rightarrow> Inl x
      | Inr page_contacts \<Rightarrow> scan_loop e base_url paths (contacts @ page_contacts))"

definition scan_website :: "env \<Rightarrow> string \<Rightarrow> exn + ContactResult list" where
  "scan_website e base_url = scan_loop e base_url paths_to_check []"

definition check_directories :: "string \<Rightarrow> exn + ContactResult list" where
  "check_directories podcast_name =
     (let contacts = [];
          directories =
            [(''podchaser'', ''https://www.podchaser.com/search?q='' @ podcast_name),
             (''chartable'', ''https://chartable.com/search?q='' @ podcast_name)]
      in Inr contacts)"

section \<open>ContactFinder: ranking\<close>

text \<open>
  \<open>seen\<close> is a Python dict: a new key goes to the end, an assignment to a key that is
  there keeps its place. \<open>AList.update\<close> does both.
\<close>

fun seen_loop :: "ContactResult list \<Rightarrow> (string \<times> ContactResult) list \<Rightarrow> (string \<times> ContactResult) list" where
  "seen_loop [] seen = seen"
| "seen_loop (contact # contacts) seen =
     (if (case map_of seen (email contact) of
            None \<Rightarrow> True
          | Some kept \<Rightarrow> confidence contact > confidence kept)
      then seen_loop contacts (AList.update (email contact) contact seen)
      else seen_loop contacts seen)"

text \<open>\<open>unique = list(seen.values())\<close>\<close>

definition dedupe :: "ContactResult list \<Rightarrow> ContactResult list" where
  "dedupe contacts = map snd (seen_loop contacts [])"

text \<open>\<open>type_priority.get(t, 99)\<close>\<close>

definition type_priority :: "string \<Rightarrow> nat" where
  "type_priority t =
     (if t = ''booking'' then 0 else if t = ''host'' then 1
      else if t = ''producer'' then 2 else if t = ''general'' then 3 else 99)"

definition rank_key :: "ContactResult \<Rightarrow> nat \<times> real" where
  "rank_key c = (type_priority (contact_type c), - confidence c)"

text \<open>\<open>list.sort\<close> is stable, as \<open>sort_key\<close> is; pairs compare lexicographically.\<close>

definition rank_contacts :: "ContactResult list \<Rightarrow> ContactResult list" where
  "rank_contacts contacts = sort_key rank_key (dedupe contacts)"

text \<open>\<open>if website_url:\<close> holds of a string that is neither \<open>None\<close> nor empty.\<close>

definition truthy :: "string option \<Rightarrow> bool" where
  "truthy s = (case s of None \<Rightarrow> False | Some x \<Rightarrow> x \<noteq> [])"

definition find_contacts ::
  "env \<Rightarrow> string option \<Rightarrow> string \<Rightarrow> string list option
     \<Rightarrow> exn + (ContactResult option \<times> ContactResult option)" where
  "find_contacts e website_url podcast_name social_links =
     (case (if truthy website_url then scan_website e (the website_url) else Inr []) of
        Inl x \<Rightarrow> Inl x
      | Inr website_contacts \<Rightarrow>
          (case check_directories podcast_name of
             Inl x \<Rightarrow> Inl x
           | Inr directory_contacts \<Rightarrow>
               (let ranked = rank_contacts (website_contacts @ directory_contacts);
                    primary = (if length ranked > 0 then Some (ranked ! 0) else None);
                    backup = (if length ranked > 1 then Some (ranked ! 1) else None)
                in Inr (primary, backup))))"

section \<open>PodcastDiscoveryEngine\<close>

record PodcastDiscoveryResult =
  show_name :: string
  host_name :: "string option"
  primary_platform_url :: string
  website_url :: "string option"
  apple_podcast_url :: "string option"
  spotify_url :: "string option"
  show_description :: "string option"
  recent_episode_titles :: "string list"
  recent_guests :: "string list"
  primary_email :: "string option"
  primary_email_source_url :: "string option"
  backup_email :: "string option"
  backup_email_source_url :: "string option"
  discovery_source :: string
  risk_signals :: "string list"
  dedupe_key :: string






definition contact_skip_patterns :: "string list" where
  "contact_skip_patterns =
     [''noreply'', ''no-reply'', ''donotreply'',
      ''info@'', ''support@'', ''help@'',
      ''privacy@'', ''legal@'', ''abuse@'',
      ''.png'', ''.jpg'', ''.gif'']"














section \<open>Notions used in the statements\<close>

text \<open>The request for \<open>url\<close> raised, or answered with a status other than 200, or its
  body could not be read.\<close>

definition fetch_failed :: "env \<Rightarrow> string \<Rightarrow> bool" where
  "fetch_failed e url =
     (case session_get e url of
        Inl x \<Rightarrow> True
      | Inr resp \<Rightarrow> status resp \<noteq> 200 \<or> isl (resp_text resp))"


text \<open>What one page contributes to a scan.\<close>

definition page_contacts :: "env \<Rightarrow> string \<Rightarrow> ContactResult list" where
  "page_contacts e url = (case scrape_try e url of Inl x \<Rightarrow> [] | Inr contacts \<Rightarrow> contacts)"



subsection \<open>The classifier as the specification words it\<close>

definition booking_keywords :: "string list" where
  "booking_keywords =
     [''booking'', ''guest'', ''podcast'', ''media'', ''inquir'', ''press'', ''interview'']"

definition webmail_domains :: "string list" where
  "webmail_domains = [''gmail.com'', ''yahoo.com'', ''outlook.com'', ''icloud.com'', ''me.com'']"

text \<open>The domain of an address: what follows its first \<open>@\<close>.\<close>

definition email_domain :: "string \<Rightarrow> string" where
  "email_domain addr = drop 1 (dropWhile (\<lambda>c. c \<noteq> CHR ''@'') addr)"

text \<open>
  Booking if the lower-cased concatenation of email and context contains a booking
  keyword; else host if the domain of the email is one of the webmail domains; else
  producer if the concatenation contains \<open>producer\<close> or \<open>production\<close>; else general.
\<close>

definition classify_spec :: "string \<Rightarrow> string \<Rightarrow> string" where
  "classify_spec addr context =
     (let combined = lower (addr @ context)
      in if list_ex (\<lambda>k. sublist k combined) booking_keywords then ''booking''
         else if lower (email_domain addr) \<in> set webmail_domains then ''host''
         else if sublist ''producer'' combined \<or> sublist ''production'' combined
              then ''producer''
         else ''general'')"

subsection \<open>A site with one page\<close>

definition home_html :: string where
  "home_html = ''<a href=\"mailto:press@show.com\">Press</a> contact us at info@show.com''"

definition press_link :: anchor where
  "press_link = \<lparr>href = ''mailto:press@show.com'', get_text = ''Press'', css_class = []\<rparr>"

text \<open>
  Only the homepage answers; every other path is a 404 and the empty URL is refused by
  the client (\<open>InvalidURL\<close>).
\<close>

definition show_env :: env where
  "show_env =
     \<lparr>session_get =
        (\<lambda>url. if url = [] then Inl (Exception ''InvalidURL'')
               else if url = ''https://show.com''
                    then Inr \<lparr>status = 200, resp_text = Inr home_html\<rparr>
               else Inr \<lparr>status = 404, resp_text = Inr []\<rparr>),
      soup_a = (\<lambda>html. if html = home_html then Inr [press_link] else Inr []),
      urlparse_netloc =
        (\<lambda>url. if url = ''https://show.com'' then Inr ''show.com''
               else if url = ''https://podcasts.apple.com/us/podcast/show/id123?uo=4''
                    then Inr ''podcasts.apple.com''
               else if url = ''https://open.spotify.com/show/abc?x=/id7''
                    then Inr ''open.spotify.com''
               else Inl (Exception ''ValueError'')),
      md5_hexdigest = (\<lambda>s. [])\<rparr>"




definition press_contact :: ContactResult where
  "press_contact =
     \<lparr>email = ''press@show.com'', source_url = ''https://show.com'',
      contact_type = ''booking'', confidence = 0.9\<rparr>"

definition info_contact :: ContactResult where
  "info_contact =
     \<lparr>email = ''info@show.com'', source_url = ''https://show.com'',
      contact_type = ''general'', confidence = 0.6\<rparr>"

text \<open>
  Instance \<open>i\<close> of \<open>contacts\<close> is, among the instances with its address, the first of
  those with the highest confidence.
\<close>

definition first_best :: "ContactResult list \<Rightarrow> nat \<Rightarrow> bool" where
  "first_best contacts i =
     (i < length contacts
      \<and> (\<forall>j < length contacts.
            email (contacts ! j) = email (contacts ! i)
            \<longrightarrow> confidence (contacts ! j) \<le> confidence (contacts ! i)
                \<and> (j < i \<longrightarrow> confidence (contacts ! j) < confidence (contacts ! i))))"

text \<open>What the loop over the candidates keeps true of \<open>seen\<close>.\<close>

definition seen_inv :: "ContactResult list \<Rightarrow> (string \<times> ContactResult) list \<Rightarrow> bool" where
  "seen_inv xs seen =
     (distinct (map fst seen) \<and> fst ` set seen = email ` set xs
      \<and> (\<forall>a k. map_of seen a = Some k \<longrightarrow> email k = a \<and> (\<exists>i. first_best xs i \<and> xs ! i = k)))"

subsection \<open>One address seen twice\<close>

definition jane_booking :: ContactResult where
  "jane_booking =
     \<lparr>email = ''jane@show.com'', source_url = ''https://show.com/contact'',
      contact_type = ''booking'', confidence = 0.5\<rparr>"

definition jane_general :: ContactResult where
  "jane_general =
     \<lparr>email = ''jane@show.com'', source_url = ''https://show.com/about'',
      contact_type = ''general'', confidence = 0.95\<rparr>"

definition team_general :: ContactResult where
  "team_general =
     \<lparr>email = ''team@show.com'', source_url = ''https://show.com/about'',
      contact_type = ''general'', confidence = 0.95\<rparr>"

definition press_in_text :: ContactResult where
  "press_in_text =
     \<lparr>email = ''press@show.com'', source_url = ''https://show.com/about'',
      contact_type = ''booking'', confidence = 0.6\<rparr>"

section \<open>Page scans absorb their failures\<close>

lemma scrape_page_eq: "scrape_page_for_emails e url = Inr (page_contacts e url)"
  by (simp add: scrape_page_for_emails_def page_contacts_def split: sum.splits)

lemma page_contacts_failed: "fetch_failed e url \<Longrightarrow> page_contacts e url = []"
  by (auto simp: fetch_failed_def page_contacts_def scrape_try_def isl_def split: sum.splits)

lemma scan_loop_eq:
  "scan_loop e base paths contacts =
     Inr (contacts @ concat (map (\<lambda>path. page_contacts e (rstrip_slash base @ path)) paths))"
  by (induction paths arbitrary: contacts) (simp_all add: scrape_page_eq)

lemma scan_website_eq:
  "scan_website e base =
     Inr (concat (map (\<lambda>path. page_contacts e (rstrip_slash base @ path)) paths_to_check))"
  by (simp add: scan_website_def scan_loop_eq)

text \<open>
  C7. For every URL, \<open>_scrape_page_for_emails\<close> returns a list and never an exception;
  when the request fails or answers with a status other than 200 the list is empty; and
  \<open>_scan_website\<close> returns the concatenation, over all ten paths in their order, of what
  each page yields on its own, so a page that fails takes nothing from the others.
\<close>

theorem scrape_never_raises:
  "(\<exists>contacts. scrape_page_for_emails e url = Inr contacts)
   \<and> (fetch_failed e url \<longrightarrow> scrape_page_for_emails e url = Inr [])
   \<and> (\<exists>f. (\<forall>u. scrape_page_for_emails e u = Inr (f u))
          \<and> (\<forall>u. fetch_failed e u \<longrightarrow> f u = [])
          \<and> scan_website e base =
              Inr (concat (map (\<lambda>path. f (rstrip_slash base @ path)) paths_to_check)))"
proof (intro conjI)
  show "\<exists>contacts. scrape_page_for_emails e url = Inr contacts"
    by (simp add: scrape_page_eq)
  show "fetch_failed e url \<longrightarrow> scrape_page_for_emails e url = Inr []"
    by (simp add: scrape_page_eq page_contacts_failed)
  show "\<exists>f. (\<forall>u. scrape_page_for_emails e u = Inr (f u))
          \<and> (\<forall>u. fetch_failed e u \<longrightarrow> f u = [])
          \<and> scan_website e base =
              Inr (concat (map (\<lambda>path. f (rstrip_slash base @ path)) paths_to_check))"
    by (rule exI [of _ "page_contacts e"])
       (simp add: scrape_page_eq page_contacts_failed scan_website_eq)
qed

lemma show_env_contact_failed: "fetch_failed show_env ''https://show.com/contact''"
  by (simp add: fetch_failed_def show_env_def)

theorem scrape_never_raises_witness:
  "fetch_failed show_env ''https://show.com/contact''
   \<and> scrape_page_for_emails show_env ''https://show.com/contact'' = Inr []"
  using scrape_never_raises [of show_env "''https://show.com/contact''" "''https://show.com''"]
        show_env_contact_failed
  by simp

section \<open>The directory step\<close>

lemma dedupe_Nil: "dedupe [] = []"
  by (simp add: dedupe_def)

lemma rank_contacts_Nil: "rank_contacts [] = []"
  by (simp add: rank_contacts_def dedupe_Nil)

text \<open>
  C10. \<open>_check_directories\<close> returns the empty list for every podcast name, so
  \<open>find_contacts\<close> without a website returns \<open>(None, None)\<close> whatever the name and the
  social links are.
\<close>

theorem no_website_no_contacts:
  "check_directories podcast_name = Inr []
   \<and> find_contacts e None podcast_name social_links = Inr (None, None)"
  by (simp add: check_directories_def find_contacts_def truthy_def rank_contacts_Nil)

section \<open>Every candidate carries the page it was found on\<close>


















section \<open>Deduplication and ranking\<close>

lemma seen_loop_snoc:
  "seen_loop (contacts @ [c]) seen =
     (if (case map_of (seen_loop contacts seen) (email c) of
            None \<Rightarrow> True
          | Some kept \<Rightarrow> confidence c > confidence kept)
      then AList.update (email c) c (seen_loop contacts seen)
      else seen_loop contacts seen)"
  by (induction contacts arbitrary: seen) (simp_all del: AList.update.simps)

lemma first_best_old:
  assumes "first_best xs i"
    and "email x = email (xs ! i) \<longrightarrow> confidence x \<le> confidence (xs ! i)"
  shows "first_best (xs @ [x]) i \<and> (xs @ [x]) ! i = xs ! i"
  using assms by (auto simp: first_best_def nth_append less_Suc_eq)

lemma first_best_new:
  assumes "\<forall>j < length xs. email (xs ! j) = email x \<longrightarrow> confidence (xs ! j) < confidence x"
  shows "first_best (xs @ [x]) (length xs) \<and> (xs @ [x]) ! length xs = x"
  using assms by (auto simp: first_best_def nth_append less_Suc_eq)

lemma first_best_unique:
  assumes "first_best xs i" and "first_best xs j" and "email (xs ! i) = email (xs ! j)"
  shows "i = j"
proof (rule ccontr)
  assume "i \<noteq> j"
  then consider "i < j" | "j < i" by arith
  then show False
  proof cases
    case 1
    with assms have "confidence (xs ! i) < confidence (xs ! j)"
      and "confidence (xs ! j) \<le> confidence (xs ! i)"
      by (auto simp: first_best_def)
    then show False by simp
  next
    case 2
    with assms have "confidence (xs ! j) < confidence (xs ! i)"
      and "confidence (xs ! i) \<le> confidence (xs ! j)"
      by (auto simp: first_best_def)
    then show False by simp
  qed
qed

lemma seen_inv_loop: "seen_inv xs (seen_loop xs [])"
proof (induction xs rule: rev_induct)
  case Nil
  then show ?case by (simp add: seen_inv_def)
next
  case (snoc x xs)
  define s where "s = seen_loop xs []"
  from snoc have dist: "distinct (map fst s)" and dom: "fst ` set s = email ` set xs"
    and kept: "\<And>a k. map_of s a = Some k \<Longrightarrow> email k = a \<and> (\<exists>i. first_best xs i \<and> xs ! i = k)"
    by (auto simp: seen_inv_def s_def)
  have others: "email k = a \<and> (\<exists>i. first_best (xs @ [x]) i \<and> (xs @ [x]) ! i = k)"
    if "map_of s a = Some k" and "a \<noteq> email x" for a k
  proof -
    from kept [OF that(1)] obtain i where i: "first_best xs i" "xs ! i = k" "email k = a"
      by blast
    with that(2) have "email x = email (xs ! i) \<longrightarrow> confidence x \<le> confidence (xs ! i)"
      by simp
    from first_best_old [OF i(1) this] i(2) i(3) show ?thesis by auto
  qed
  have updated: "seen_inv (xs @ [x]) (AList.update (email x) x s)"
    if "first_best (xs @ [x]) (length xs) \<and> (xs @ [x]) ! length xs = x"
  proof -
    have "email k = a \<and> (\<exists>i. first_best (xs @ [x]) i \<and> (xs @ [x]) ! i = k)"
      if m: "map_of (AList.update (email x) x s) a = Some k" for a k
    proof (cases "a = email x")
      case True
      with m have "k = x" by (simp add: update_conv')
      with True \<open>first_best (xs @ [x]) (length xs) \<and> (xs @ [x]) ! length xs = x\<close>
      show ?thesis by blast
    next
      case False
      with m have "map_of s a = Some k" by (simp add: update_conv')
      from others [OF this False] show ?thesis .
    qed
    moreover have "distinct (map fst (AList.update (email x) x s))"
      using dist by (simp add: distinct_update)
    moreover have "fst ` set (AList.update (email x) x s) = email ` set (xs @ [x])"
      using dom by (simp add: dom_update)
    ultimately show ?thesis
      unfolding seen_inv_def by blast
  qed
  show ?case
  proof (cases "map_of s (email x)")
    case None
    then have new: "seen_loop (xs @ [x]) [] = AList.update (email x) x s"
      by (simp add: seen_loop_snoc s_def del: AList.update.simps)
    from None have "email x \<notin> fst ` set s"
      by (simp add: map_of_eq_None_iff)
    with dom have "\<forall>j < length xs. email (xs ! j) \<noteq> email x"
      by (metis imageI nth_mem)
    then have "first_best (xs @ [x]) (length xs) \<and> (xs @ [x]) ! length xs = x"
      by (intro first_best_new) simp
    then show ?thesis
      unfolding new by (rule updated)
  next
    case (Some old)
    from kept [OF Some] obtain i0 where i0: "first_best xs i0" "xs ! i0 = old" "email old = email x"
      by blast
    from Some have in_dom: "email x \<in> fst ` set s"
      by (metis domI dom_map_of_conv_image_fst)
    show ?thesis
    proof (cases "confidence x > confidence old")
      case True
      with Some have new: "seen_loop (xs @ [x]) [] = AList.update (email x) x s"
        by (simp add: seen_loop_snoc s_def del: AList.update.simps)
      have "\<forall>j < length xs. email (xs ! j) = email x \<longrightarrow> confidence (xs ! j) < confidence x"
        using i0 True by (fastforce simp: first_best_def)
      then have "first_best (xs @ [x]) (length xs) \<and> (xs @ [x]) ! length xs = x"
        by (rule first_best_new)
      then show ?thesis
        unfolding new by (rule updated)
    next
      case False
      with Some have new: "seen_loop (xs @ [x]) [] = s"
        by (simp add: seen_loop_snoc s_def del: AList.update.simps)
      from False i0 have "email x = email (xs ! i0) \<longrightarrow> confidence x \<le> confidence (xs ! i0)"
        by simp
      from first_best_old [OF i0(1) this] i0(2)
      have same: "\<exists>i. first_best (xs @ [x]) i \<and> (xs @ [x]) ! i = old"
        by auto
      have "email k = a \<and> (\<exists>i. first_best (xs @ [x]) i \<and> (xs @ [x]) ! i = k)"
        if m: "map_of s a = Some k" for a k
      proof (cases "a = email x")
        case True
        with m Some same i0 show ?thesis by simp
      next
        case False
        from others [OF m False] show ?thesis .
      qed
      moreover have "fst ` set s = email ` set (xs @ [x])"
        using dom in_dom by auto
      ultimately show ?thesis
        unfolding new seen_inv_def using dist by blast
    qed
  qed
qed

lemma dedupe_emails: "map email (dedupe xs) = map fst (seen_loop xs [])"
proof -
  have "\<forall>p \<in> set (seen_loop xs []). email (snd p) = fst p"
    using seen_inv_loop [of xs]
    by (auto simp: seen_inv_def)
  then show ?thesis
    by (simp add: dedupe_def)
qed

lemma distinct_dedupe: "distinct (map email (dedupe xs))"
  using seen_inv_loop [of xs] by (simp add: dedupe_emails seen_inv_def)

lemma set_dedupe_first_best: "set (dedupe xs) = {xs ! i | i. first_best xs i}"
proof (intro set_eqI iffI)
  fix k
  assume "k \<in> set (dedupe xs)"
  then obtain a where "(a, k) \<in> set (seen_loop xs [])"
    by (auto simp: dedupe_def)
  then have "map_of (seen_loop xs []) a = Some k"
    using seen_inv_loop [of xs] by (simp add: seen_inv_def)
  then obtain i where "first_best xs i" "xs ! i = k"
    using seen_inv_loop [of xs] unfolding seen_inv_def by blast
  then show "k \<in> {xs ! i | i. first_best xs i}"
    by blast
next
  fix k
  assume "k \<in> {xs ! i | i. first_best xs i}"
  then obtain i where i: "first_best xs i" "xs ! i = k"
    by auto
  then have "email k \<in> email ` set xs"
    by (auto simp: first_best_def)
  then have "email k \<in> fst ` set (seen_loop xs [])"
    using seen_inv_loop [of xs] by (simp add: seen_inv_def)
  then obtain k' where k': "map_of (seen_loop xs []) (email k) = Some k'"
    by (metis domD dom_map_of_conv_image_fst)
  then obtain i' where i': "first_best xs i'" "xs ! i' = k'" "email k' = email k"
    using seen_inv_loop [of xs] unfolding seen_inv_def by blast
  with i have "i = i'"
    by (intro first_best_unique [of xs]) simp_all
  with i i' k' have "(email k, k) \<in> set (seen_loop xs [])"
    by (simp add: map_of_SomeD)
  then show "k \<in> set (dedupe xs)"
    by (force simp: dedupe_def)
qed

lemma dedupe_pair_low_high:
  assumes "email a = email b" and "confidence a < confidence b"
  shows "dedupe [a, b] = [b]" and "dedupe [b, a] = [b]"
  using assms by (simp_all add: dedupe_def)

text \<open>
  C2. The dedupe step of \<open>_rank_contacts\<close> keeps exactly one instance of every address
  of its input: the addresses of the result are distinct and are those of the input, and
  the instances kept are exactly those that are, among the instances with their address,
  the first of highest confidence (a later instance replaces the kept one only when its
  confidence is strictly higher, so an equal one leaves the first in place). Each is an
  element of the input, with all its fields. Of two candidates with one address and
  confidences 0.6 and 0.9, in either order, only the second survives, with its
  \<open>source_url\<close>.
\<close>

theorem dedupe_keeps_first_best:
  "distinct (map email (dedupe contacts))
   \<and> email ` set (dedupe contacts) = email ` set contacts
   \<and> set (dedupe contacts) = {contacts ! i | i. first_best contacts i}
   \<and> (\<forall>a b. email a = email b \<and> confidence a = 0.6 \<and> confidence b = 0.9
         \<longrightarrow> dedupe [a, b] = [b] \<and> dedupe [b, a] = [b]
             \<and> rank_contacts [a, b] = [b] \<and> rank_contacts [b, a] = [b]
             \<and> source_url (hd (rank_contacts [a, b])) = source_url b)"
proof (intro conjI allI impI)
  show "distinct (map email (dedupe contacts))"
    by (rule distinct_dedupe)
  show "email ` set (dedupe contacts) = email ` set contacts"
    using seen_inv_loop [of contacts] dedupe_emails [of contacts]
    by (metis seen_inv_def set_map)
  show "set (dedupe contacts) = {contacts ! i | i. first_best contacts i}"
    by (rule set_dedupe_first_best)
next
  fix a b :: ContactResult
  assume *: "email a = email b \<and> confidence a = 0.6 \<and> confidence b = 0.9"
  then have lt: "confidence a < confidence b" by simp
  from * lt show "dedupe [a, b] = [b]" "dedupe [b, a] = [b]"
    by (simp_all add: dedupe_pair_low_high)
  with * lt show "rank_contacts [a, b] = [b]" "rank_contacts [b, a] = [b]"
    by (simp_all add: rank_contacts_def)
  then show "source_url (hd (rank_contacts [a, b])) = source_url b"
    by simp
qed

theorem dedupe_keeps_first_best_witness:
  "email press_in_text = email press_contact
   \<and> confidence press_in_text = 0.6 \<and> confidence press_contact = 0.9
   \<and> rank_contacts [press_in_text, press_contact] = [press_contact]
   \<and> source_url (hd (rank_contacts [press_in_text, press_contact])) = ''https://show.com''"
proof -
  have same: "email press_in_text = email press_contact
      \<and> confidence press_in_text = 0.6 \<and> confidence press_contact = 0.9"
    by (simp add: press_in_text_def press_contact_def)
  from dedupe_keeps_first_best [of "[]", THEN conjunct2, THEN conjunct2, THEN conjunct2,
      rule_format, OF same]
  have "rank_contacts [press_in_text, press_contact] = [press_contact]"
    and "source_url (hd (rank_contacts [press_in_text, press_contact])) = source_url press_contact"
    by simp_all
  with same show ?thesis
    by (simp add: press_contact_def)
qed

lemma sorted_rank_contacts: "sorted (map rank_key (rank_contacts contacts))"
  by (simp add: rank_contacts_def)

lemma booking_before_general:
  assumes "sorted (map rank_key xs)" and "i < length xs" and "j < length xs"
    and "contact_type (xs ! i) = ''booking''" and "contact_type (xs ! j) = ''general''"
  shows "i < j"
proof (rule ccontr)
  assume "\<not> i < j"
  then have "j \<le> i" by simp
  from sorted_nth_mono [OF assms(1) this] assms(2,3)
  have "rank_key (xs ! j) \<le> rank_key (xs ! i)"
    by simp
  with assms(4,5) show False
    by (simp add: rank_key_def type_priority_def)
qed

lemma set_rank_first_best:
  "set (rank_contacts contacts) = {contacts ! i | i. first_best contacts i}"
  by (simp add: rank_contacts_def set_dedupe_first_best)

lemma rank_emails: "email ` set (rank_contacts contacts) = email ` set contacts"
proof -
  have "email ` set (dedupe contacts) = set (map fst (seen_loop contacts []))"
    using dedupe_emails [of contacts] by (metis set_map)
  also have "\<dots> = email ` set contacts"
    using seen_inv_loop [of contacts] by (simp add: seen_inv_def)
  finally show ?thesis
    by (simp add: rank_contacts_def)
qed

lemma distinct_rank_emails: "distinct (map email (rank_contacts contacts))"
proof -
  from distinct_dedupe [of contacts]
  have "distinct (dedupe contacts)" and "inj_on email (set (dedupe contacts))"
    by (simp_all add: distinct_map)
  then show ?thesis
    by (simp add: rank_contacts_def distinct_map)
qed

lemma length_rank_contacts: "length (rank_contacts contacts) = card (email ` set contacts)"
proof -
  have "length (rank_contacts contacts) = length (map email (rank_contacts contacts))"
    by simp
  also have "\<dots> = card (set (map email (rank_contacts contacts)))"
    using distinct_rank_emails [of contacts] by (simp only: distinct_card)
  also have "\<dots> = card (email ` set contacts)"
    by (simp add: rank_emails)
  finally show ?thesis .
qed

lemma lower_confidence_dropped:
  assumes "b \<in> set contacts" and "g \<in> set contacts"
    and "email b = email g" and "confidence b < confidence g"
  shows "b \<notin> set (rank_contacts contacts)"
proof
  assume "b \<in> set (rank_contacts contacts)"
  then obtain i where i: "first_best contacts i" "contacts ! i = b"
    by (auto simp: set_rank_first_best)
  from assms(2) obtain j where j: "j < length contacts" "contacts ! j = g"
    by (auto simp: in_set_conv_nth)
  with i assms(3) have "confidence g \<le> confidence b"
    by (auto simp: first_best_def)
  with assms(4) show False by simp
qed

lemma ranked_booking_before_general:
  assumes "b \<in> set (rank_contacts contacts)" and "g \<in> set (rank_contacts contacts)"
    and "contact_type b = ''booking''" and "contact_type g = ''general''"
  shows "\<exists>i j. i < j \<and> j < length (rank_contacts contacts)
           \<and> rank_contacts contacts ! i = b \<and> rank_contacts contacts ! j = g"
proof -
  from assms(1,2) obtain i j where ij: "i < length (rank_contacts contacts)"
      "rank_contacts contacts ! i = b" "j < length (rank_contacts contacts)"
      "rank_contacts contacts ! j = g"
    by (auto simp: in_set_conv_nth)
  with assms(3,4) sorted_rank_contacts [of contacts] have "i < j"
    using booking_before_general [of "rank_contacts contacts" i j] by simp
  with ij show ?thesis by blast
qed

text \<open>
  C3, as the code has it. The list that \<open>_rank_contacts\<close> returns is ascending in the key
  \<open>(type_priority, -confidence)\<close>, with priorities 0 for booking, 1 for host, 2 for
  producer and 3 for general. It holds the candidates that the dedupe step keeps, one for
  each address of the input: the first instance of highest confidence. So every booking
  candidate of the output stands before every general candidate of the output, whatever
  their confidences; a booking candidate and a general candidate with different
  addresses, alone in the input, come out in that order (booking/0.5 before
  general/0.95); and a candidate that shares its address with one of higher confidence
  is not in the output, whatever their types.
\<close>

theorem rank_contacts_sorted:
  "sorted (map rank_key (rank_contacts contacts))
   \<and> rank_key c = (type_priority (contact_type c), - confidence c)
   \<and> type_priority ''booking'' = 0 \<and> type_priority ''host'' = 1
   \<and> type_priority ''producer'' = 2 \<and> type_priority ''general'' = 3
   \<and> (\<forall>i j. i < length (rank_contacts contacts) \<and> j < length (rank_contacts contacts)
           \<and> contact_type (rank_contacts contacts ! i) = ''booking''
           \<and> contact_type (rank_contacts contacts ! j) = ''general''
         \<longrightarrow> i < j)
   \<and> (\<forall>b g. contact_type b = ''booking'' \<and> contact_type g = ''general'' \<and> email b \<noteq> email g
         \<longrightarrow> rank_contacts [g, b] = [b, g] \<and> rank_contacts [b, g] = [b, g])
   \<and> set (rank_contacts contacts) = {contacts ! i | i. first_best contacts i}
   \<and> distinct (map email (rank_contacts contacts))
   \<and> length (rank_contacts contacts) = card (email ` set contacts)
   \<and> (\<forall>b g. b \<in> set (rank_contacts contacts) \<and> g \<in> set (rank_contacts contacts)
           \<and> contact_type b = ''booking'' \<and> contact_type g = ''general''
         \<longrightarrow> (\<exists>i j. i < j \<and> j < length (rank_contacts contacts)
                \<and> rank_contacts contacts ! i = b \<and> rank_contacts contacts ! j = g))
   \<and> (\<forall>b g. b \<in> set contacts \<and> g \<in> set contacts
           \<and> email b = email g \<and> confidence b < confidence g
         \<longrightarrow> b \<notin> set (rank_contacts contacts))"
proof -
  have index: "\<forall>i j. i < length (rank_contacts contacts) \<and> j < length (rank_contacts contacts)
           \<and> contact_type (rank_contacts contacts ! i) = ''booking''
           \<and> contact_type (rank_contacts contacts ! j) = ''general''
         \<longrightarrow> i < j"
    using sorted_rank_contacts [of contacts] booking_before_general by blast
  have pair: "\<forall>b g. contact_type b = ''booking'' \<and> contact_type g = ''general''
           \<and> email b \<noteq> email g
         \<longrightarrow> rank_contacts [g, b] = [b, g] \<and> rank_contacts [b, g] = [b, g]"
  proof (intro allI impI)
    fix b g :: ContactResult
    assume *: "contact_type b = ''booking'' \<and> contact_type g = ''general'' \<and> email b \<noteq> email g"
    then have "rank_key b < rank_key g" "\<not> rank_key g \<le> rank_key b"
      and "email g \<noteq> email b"
      by (auto simp: rank_key_def type_priority_def)
    with * show "rank_contacts [g, b] = [b, g] \<and> rank_contacts [b, g] = [b, g]"
      by (simp add: rank_contacts_def dedupe_def)
  qed
  have before: "\<forall>b g. b \<in> set (rank_contacts contacts) \<and> g \<in> set (rank_contacts contacts)
           \<and> contact_type b = ''booking'' \<and> contact_type g = ''general''
         \<longrightarrow> (\<exists>i j. i < j \<and> j < length (rank_contacts contacts)
                \<and> rank_contacts contacts ! i = b \<and> rank_contacts contacts ! j = g)"
    using ranked_booking_before_general by blast
  have dropped: "\<forall>b g. b \<in> set contacts \<and> g \<in> set contacts
           \<and> email b = email g \<and> confidence b < confidence g
         \<longrightarrow> b \<notin> set (rank_contacts contacts)"
    using lower_confidence_dropped by blast
  have prio: "type_priority ''booking'' = 0" "type_priority ''host'' = 1"
    "type_priority ''producer'' = 2" "type_priority ''general'' = 3"
    by (simp_all add: type_priority_def)
  have key: "rank_key c = (type_priority (contact_type c), - confidence c)"
    by (simp add: rank_key_def)
  from sorted_rank_contacts [of contacts] key prio index pair set_rank_first_best [of contacts]
    distinct_rank_emails [of contacts] length_rank_contacts [of contacts] before dropped
  show ?thesis
    by (intro conjI)
qed

theorem rank_contacts_sorted_witness:
  "contact_type jane_booking = ''booking'' \<and> contact_type team_general = ''general''
   \<and> email jane_booking \<noteq> email team_general
   \<and> confidence jane_booking = 0.5 \<and> confidence team_general = 0.95
   \<and> rank_contacts [team_general, jane_booking] = [jane_booking, team_general]"
proof -
  have types: "contact_type jane_booking = ''booking'' \<and> contact_type team_general = ''general''
      \<and> email jane_booking \<noteq> email team_general"
    by (simp add: jane_booking_def team_general_def)
  from rank_contacts_sorted [of "[]" jane_booking, THEN conjunct2, THEN conjunct2,
      THEN conjunct2, THEN conjunct2, THEN conjunct2, THEN conjunct2, THEN conjunct2,
      THEN conjunct1, rule_format, OF types]
  have "rank_contacts [team_general, jane_booking] = [jane_booking, team_general]"
    by simp
  with types show ?thesis
    by (simp add: jane_booking_def team_general_def)
qed

text \<open>
  The claim as it is written fails where the two candidates share their address: the
  dedupe step keeps the one of higher confidence, here the general one, and the booking
  candidate is not in the output at all.
\<close>

theorem rank_contacts_same_address_counterexample:
  "contact_type jane_booking = ''booking'' \<and> contact_type jane_general = ''general''
   \<and> rank_contacts [jane_booking, jane_general] = [jane_general]
   \<and> jane_booking \<notin> set (rank_contacts [jane_booking, jane_general])"
  by (simp add: rank_contacts_def dedupe_def jane_booking_def jane_general_def)

section \<open>Validation and classification\<close>

lemma match_here_One:
  "match_here (One cls # q) prev s =
     (case s of
        [] \<Rightarrow> None
      | x # s' \<Rightarrow> if cls x then map_option (Cons [x]) (match_here q (Some x) s') else None)"
proof (cases s)
  case Nil
  then show ?thesis by (simp add: One_def counts_def)
next
  case (Cons x s')
  show ?thesis
  proof (cases "cls x")
    case True
    then have "counts cls 1 (Some 1) (x # s') = [1]"
      by (simp add: counts_def)
    with True Cons show ?thesis by (simp add: One_def split: option.splits)
  next
    case False
    then have "counts cls 1 (Some 1) (x # s') = []"
      by (simp add: counts_def)
    with False Cons show ?thesis by (simp add: One_def)
  qed
qed

lemma match_here_lits:
  "match_here (lits p) prev s = (if prefix p s then Some (map (\<lambda>c. [c]) p) else None)"
proof (induction p arbitrary: prev s)
  case Nil
  then show ?case by (simp add: lits_def)
next
  case (Cons c p)
  have "lits (c # p) = One (\<lambda>x. x = c) # lits p"
    by (simp add: lits_def Lit_def)
  then show ?case
    by (cases s) (auto simp: match_here_One Cons.IH)
qed

lemma search_from_lits: "search_from (lits p) prev s = None \<longleftrightarrow> \<not> sublist p s"
proof (induction s arbitrary: prev)
  case Nil
  then show ?case by (simp add: match_here_lits)
next
  case (Cons c s)
  then show ?case
    by (simp add: match_here_lits sublist_Cons_right)
qed

lemma re_search_lits: "re_search (lits p) s \<noteq> None \<longleftrightarrow> sublist p s"
  using search_from_lits [of p None s] by (simp add: re_search_def del: not_None_eq)

lemma any_search_lits:
  "any_search (map lits ps) s \<longleftrightarrow> list_ex (\<lambda>p. sublist p s) ps"
  by (induction ps) (simp_all add: re_search_lits del: not_None_eq)

lemma any_in_iff: "any_in ps s \<longleftrightarrow> (\<exists>p \<in> set ps. str_in p s)"
  by (induction ps) auto

lemma lower_append: "lower (a @ b) = lower a @ lower b"
  by (simp add: lower_def)

lemma classify_email_unfold:
  "classify_email addr context =
     (let combined = lower (addr @ '' '' @ context)
      in if list_ex (\<lambda>k. sublist k combined) booking_keywords then ''booking''
         else if list_ex (\<lambda>d. sublist (''@'' @ d) (lower addr)) webmail_domains then ''host''
         else if sublist ''producer'' combined \<or> sublist ''production'' combined
              then ''producer''
         else ''general'')"
proof -
  have "map (\<lambda>d. ''@'' @ d) webmail_domains
      = [''@gmail.com'', ''@yahoo.com'', ''@outlook.com'', ''@icloud.com'', ''@me.com'']"
    by (simp add: webmail_domains_def)
  then have hp: "host_patterns = map lits (map (\<lambda>d. ''@'' @ d) webmail_domains)"
    by (simp add: host_patterns_def)
  have host: "any_search host_patterns s
      \<longleftrightarrow> list_ex (\<lambda>d. sublist (''@'' @ d) s) webmail_domains" for s
    unfolding hp any_search_lits by (simp add: list_ex_iff)
  have bp: "booking_patterns = map lits booking_keywords"
    by (simp add: booking_patterns_def booking_keywords_def)
  have booking: "any_search booking_patterns s
      \<longleftrightarrow> list_ex (\<lambda>k. sublist k s) booking_keywords" for s
    unfolding bp by (rule any_search_lits)
  show ?thesis
    unfolding classify_email_def Let_def booking host str_in_def
    by simp
qed

lemma is_valid_email_denied:
  assumes "p \<in> set skip_patterns" and "str_in p (lower addr)"
  shows "\<not> is_valid_email addr"
proof -
  from assms have "any_in skip_patterns (lower addr)"
    by (auto simp: any_in_iff)
  then show ?thesis
    by (simp add: is_valid_email_def Let_def)
qed

lemma booking_showname_valid: "is_valid_email ''booking@showname.com''"
  by code_simp

lemma jane_booking_class: "classify_email ''jane@gmail.com'' ''Booking inquiries'' = ''booking''"
  by code_simp

lemma jane_host_class: "classify_email ''jane@gmail.com'' [] = ''host''"
  by code_simp

lemma lower_lits:
  "lower ''wixpress.com'' = ''wixpress.com''" "lower ''.png'' = ''.png''"
  "lower ''.jpg'' = ''.jpg''" "lower ''.gif'' = ''.gif''" "lower ''.svg'' = ''.svg''"
  "lower ''booking@showname.com '' = ''booking@showname.com ''"
  by code_simp+

lemma not_valid_examples:
  "\<not> is_valid_email ''noreply@example.com''" "\<not> is_valid_email ''privacy@site.com''"
  "\<not> is_valid_email ''photo.png@cdn.site.com''"
  by code_simp+

lemma denied_extension:
  assumes "ext \<in> {''.png'', ''.jpg'', ''.gif'', ''.svg''}"
  shows "\<not> is_valid_email (pre @ ext @ post)"
proof -
  from assms have "ext \<in> set skip_patterns" and "lower ext = ext"
    by (auto simp: skip_patterns_def lower_lits)
  then have "str_in ext (lower (pre @ ext @ post))"
    by (simp add: str_in_def lower_append)
  with \<open>ext \<in> set skip_patterns\<close> show ?thesis
    by (rule is_valid_email_denied)
qed

lemma denied_wixpress:
  assumes "lower host = ''wixpress.com''"
  shows "\<not> is_valid_email (who @ ''@'' @ host)"
proof -
  have "''wixpress.com'' = ''wixpress'' @ ''.com''"
    by simp
  with assms have "lower (who @ ''@'' @ host) = (lower who @ lower ''@'') @ ''wixpress'' @ ''.com''"
    by (simp only: lower_append append_assoc)
  then have "str_in ''wixpress'' (lower (who @ ''@'' @ host))"
    unfolding str_in_def by (simp only: sublist_appendI)
  moreover have "''wixpress'' \<in> set skip_patterns"
    by (simp add: skip_patterns_def)
  ultimately show ?thesis
    by (rule is_valid_email_denied [rotated])
qed

lemma booking_showname_class: "classify_email ''booking@showname.com'' context = ''booking''"
proof -
  have "''booking@showname.com'' @ '' '' @ context = ''booking@showname.com '' @ context"
    by simp
  then have "lower (''booking@showname.com'' @ '' '' @ context)
      = lower ''booking@showname.com '' @ lower context"
    by (simp only: lower_append)
  also have "\<dots> = ''booking@showname.com '' @ lower context"
    by (simp only: lower_lits)
  also have "\<dots> = ''booking'' @ (''@showname.com '' @ lower context)"
    by simp
  finally have "sublist ''booking'' (lower (''booking@showname.com'' @ '' '' @ context))"
    by (simp only: sublist_append_rightI)
  then show ?thesis
    by (simp add: classify_email_unfold Let_def booking_keywords_def)
qed

lemma classify_email_range:
  "classify_email addr context \<in> {''booking'', ''host'', ''producer'', ''general''}"
  by (simp add: classify_email_unfold Let_def)

text \<open>
  C5. \<open>_is_valid_email\<close> rejects every address whose lower-cased form contains a token of
  the deny-list, which is the list of the specification: so \<open>noreply@example.com\<close>,
  \<open>privacy@site.com\<close> and \<open>photo.png@cdn.site.com\<close>, every string with an image extension
  in it, and every address at \<open>wixpress.com\<close> in any letter case. It accepts
  \<open>booking@showname.com\<close>, which \<open>_classify_email\<close> classifies as booking whatever the
  context is.
\<close>

theorem is_valid_email_rejects_denied:
  "(\<forall>addr p. p \<in> set skip_patterns \<and> str_in p (lower addr) \<longrightarrow> \<not> is_valid_email addr)
   \<and> set skip_patterns =
       {''noreply'', ''no-reply'', ''donotreply'', ''mailer-daemon'',
        ''example.com'', ''example.org'', ''test.com'',
        ''.png'', ''.jpg'', ''.gif'', ''.svg'',
        ''wixpress'', ''sentry.io'', ''cloudflare'',
        ''privacy@'', ''abuse@'', ''postmaster@'', ''webmaster@''}
   \<and> \<not> is_valid_email ''noreply@example.com''
   \<and> \<not> is_valid_email ''privacy@site.com''
   \<and> \<not> is_valid_email ''photo.png@cdn.site.com''
   \<and> (\<forall>pre ext post. ext \<in> {''.png'', ''.jpg'', ''.gif'', ''.svg''}
         \<longrightarrow> \<not> is_valid_email (pre @ ext @ post))
   \<and> (\<forall>who host. lower host = ''wixpress.com'' \<longrightarrow> \<not> is_valid_email (who @ ''@'' @ host))
   \<and> is_valid_email ''booking@showname.com''
   \<and> (\<forall>context. classify_email ''booking@showname.com'' context = ''booking'')"
proof (intro conjI allI impI)
  fix addr p
  assume "p \<in> set skip_patterns \<and> str_in p (lower addr)"
  then show "\<not> is_valid_email addr"
    using is_valid_email_denied by blast
next
  show "set skip_patterns =
       {''noreply'', ''no-reply'', ''donotreply'', ''mailer-daemon'',
        ''example.com'', ''example.org'', ''test.com'',
        ''.png'', ''.jpg'', ''.gif'', ''.svg'',
        ''wixpress'', ''sentry.io'', ''cloudflare'',
        ''privacy@'', ''abuse@'', ''postmaster@'', ''webmaster@''}"
    by (simp add: skip_patterns_def)
  show "\<not> is_valid_email ''noreply@example.com''" "\<not> is_valid_email ''privacy@site.com''"
    "\<not> is_valid_email ''photo.png@cdn.site.com''"
    by (rule not_valid_examples)+
  show "is_valid_email ''booking@showname.com''"
    by (rule booking_showname_valid)
next
  fix pre ext post :: string
  assume "ext \<in> {''.png'', ''.jpg'', ''.gif'', ''.svg''}"
  then show "\<not> is_valid_email (pre @ ext @ post)"
    by (rule denied_extension)
next
  fix who host :: string
  assume "lower host = ''wixpress.com''"
  then show "\<not> is_valid_email (who @ ''@'' @ host)"
    by (rule denied_wixpress)
next
  fix ctx
  show "classify_email ''booking@showname.com'' ctx = ''booking''"
    by (rule booking_showname_class)
qed

lemma lower_wix: "lower ''WixPress.com'' = ''wixpress.com''"
  by code_simp

theorem is_valid_email_rejects_denied_witness:
  "lower ''WixPress.com'' = ''wixpress.com''
   \<and> \<not> is_valid_email (''owner'' @ ''@'' @ ''WixPress.com'')"
proof -
  from is_valid_email_rejects_denied [THEN conjunct2, THEN conjunct2, THEN conjunct2,
      THEN conjunct2, THEN conjunct2, THEN conjunct2, THEN conjunct1, rule_format, OF lower_wix]
  have "\<not> is_valid_email (''owner'' @ ''@'' @ ''WixPress.com'')" .
  with lower_wix show ?thesis
    by (rule conjI)
qed

lemma sublist_around_sep:
  assumes "sep \<notin> set k"
  shows "sublist k (a @ sep # b) \<longleftrightarrow> sublist k a \<or> sublist k b"
proof
  assume "sublist k (a @ sep # b)"
  then consider "sublist k a" | "sublist k (sep # b)"
    | k1 k2 where "k = k1 @ k2" "suffix k1 a" "prefix k2 (sep # b)"
    by (auto simp: sublist_append)
  then show "sublist k a \<or> sublist k b"
  proof cases
    case 1
    then show ?thesis by simp
  next
    case 2
    then have "prefix k (sep # b) \<or> sublist k b"
      by (simp add: sublist_Cons_right)
    moreover have "k = []" if "prefix k (sep # b)"
      using that assms by (cases k) auto
    ultimately show ?thesis by auto
  next
    case 3
    from 3(1,3) assms have "k2 = []"
      by (cases k2) auto
    with 3 show ?thesis
      by simp
  qed
next
  assume "sublist k a \<or> sublist k b"
  then show "sublist k (a @ sep # b)"
  proof
    assume "sublist k a"
    then show ?thesis
      by (metis sublist_order.order_trans sublist_append_rightI)
  next
    assume "sublist k b"
    then have "sublist k (sep # b)"
      by (simp add: sublist_Cons_right)
    then show ?thesis
      by (metis sublist_order.order_trans sublist_append_leftI)
  qed
qed

lemma lower_joined: "lower (a @ '' '' @ b) = lower a @ CHR '' '' # lower b"
proof -
  have "lower '' '' = '' ''" by code_simp
  then show ?thesis by (simp add: lower_def)
qed

lemma keyword_in_joined:
  assumes "CHR '' '' \<notin> set k"
  shows "sublist k (lower (a @ '' '' @ b)) \<longleftrightarrow> sublist k (lower a) \<or> sublist k (lower b)"
  unfolding lower_joined using assms by (rule sublist_around_sep)

lemma booking_keywords_no_space: "list_all (\<lambda>k. CHR '' '' \<notin> set k) booking_keywords"
  by (simp add: booking_keywords_def)

lemma classify_booking_iff:
  "classify_email addr context = ''booking''
   \<longleftrightarrow> list_ex (\<lambda>k. sublist k (lower addr) \<or> sublist k (lower context)) booking_keywords"
proof -
  have "sublist k (lower (addr @ '' '' @ context))
      \<longleftrightarrow> sublist k (lower addr) \<or> sublist k (lower context)"
    if "k \<in> set booking_keywords" for k
    using that booking_keywords_no_space keyword_in_joined unfolding list_all_iff by blast
  then have "list_ex (\<lambda>k. sublist k (lower (addr @ '' '' @ context))) booking_keywords
      \<longleftrightarrow> list_ex (\<lambda>k. sublist k (lower addr) \<or> sublist k (lower context)) booking_keywords"
    unfolding list_ex_iff by blast
  then show ?thesis
    by (simp add: classify_email_unfold Let_def)
qed

lemma classify_email_host_anywhere:
  assumes "\<not> list_ex (\<lambda>k. sublist k (lower addr) \<or> sublist k (lower context)) booking_keywords"
    and "d \<in> set webmail_domains" and "sublist (''@'' @ d) (lower addr)"
  shows "classify_email addr context = ''host''"
proof -
  from assms(1) have "classify_email addr context \<noteq> ''booking''"
    by (simp add: classify_booking_iff)
  moreover from assms(2,3)
  have "list_ex (\<lambda>d. sublist (''@'' @ d) (lower addr)) webmail_domains"
    unfolding list_ex_iff by blast
  ultimately show ?thesis
    by (simp add: classify_email_unfold Let_def split: if_splits)
qed

text \<open>
  C6. The classifier of the code and the first-match classifier of the specification
  part in the host step. The code searches each webmail pattern anywhere in the
  lower-cased address, with no anchor at its end, so an address whose domain only begins
  with a webmail domain is host: \<open>x@me.community\<close> and \<open>jane@gmail.com.evil.org\<close>, which
  the specification makes general, and \<open>producer@me.community\<close>, which it makes producer.
  Each of the three passes the validator.
\<close>

theorem classify_email_unanchored_host:
  "is_valid_email ''x@me.community''
   \<and> classify_email ''x@me.community'' [] = ''host''
   \<and> classify_spec ''x@me.community'' [] = ''general''
   \<and> is_valid_email ''producer@me.community''
   \<and> classify_email ''producer@me.community'' [] = ''host''
   \<and> classify_spec ''producer@me.community'' [] = ''producer''
   \<and> is_valid_email ''jane@gmail.com.evil.org''
   \<and> classify_email ''jane@gmail.com.evil.org'' [] = ''host''
   \<and> classify_spec ''jane@gmail.com.evil.org'' [] = ''general''"
  by code_simp

section \<open>The scenario of a site with one page\<close>

lemma press_href_facts:
  "re_search mailto_re_I ''mailto:press@show.com'' \<noteq> None"
  "strip (split_first CHR ''?'' (replace ''mailto:'' [] ''mailto:press@show.com'')) = ''press@show.com''"
  "is_valid_email ''press@show.com''"
  "classify_email ''press@show.com'' ''Press'' = ''booking''"
  "lower ''press@show.com'' = ''press@show.com''"
  by code_simp+

lemma info_facts:
  "is_valid_email ''info@show.com''"
  "classify_email ''info@show.com'' [] = ''general''"
  "lower ''info@show.com'' = ''info@show.com''"
  "\<not> any_in skip_patterns (lower ''info@show.com'')"
  by code_simp+

lemma home_findall: "findall email_pattern home_html = [''press@show.com'', ''info@show.com'']"
  by code_simp

lemma press_page_contacts:
  assumes "session_get e url = Inr \<lparr>status = 200, resp_text = Inr html\<rparr>"
    and "soup_a e html = Inr [link]"
    and "href link = ''mailto:press@show.com''" and "get_text link = ''Press''"
    and "findall email_pattern html = [''press@show.com'', ''info@show.com'']"
  shows "page_contacts e url =
     [\<lparr>email = ''press@show.com'', source_url = url, contact_type = ''booking'', confidence = 0.9\<rparr>,
      \<lparr>email = ''info@show.com'', source_url = url, contact_type = ''general'', confidence = 0.6\<rparr>]"
proof -
  have links: "filter (\<lambda>a. re_search mailto_re_I (href a) \<noteq> None) [link] = [link]"
    using assms(3) press_href_facts(1) by (simp del: not_None_eq)
  have m: "mailto_loop url [link] [] =
     [\<lparr>email = ''press@show.com'', source_url = url, contact_type = ''booking'', confidence = 0.9\<rparr>]"
    by (simp only: mailto_loop.simps assms(3,4) press_href_facts Let_def if_True append_Nil
          refl)
  have t: "text_loop url [''press@show.com'', ''info@show.com'']
       [\<lparr>email = ''press@show.com'', source_url = url, contact_type = ''booking'', confidence = 0.9\<rparr>] =
     [\<lparr>email = ''press@show.com'', source_url = url, contact_type = ''booking'', confidence = 0.9\<rparr>,
      \<lparr>email = ''info@show.com'', source_url = url, contact_type = ''general'', confidence = 0.6\<rparr>]"
    by (simp add: press_href_facts info_facts)
  show ?thesis
    unfolding page_contacts_def scrape_try_def
    by (simp only: assms links m t Let_def sum.case response.simps simp_thms if_False)
qed

lemma rank_press_info:
  "rank_contacts
     [\<lparr>email = ''press@show.com'', source_url = url, contact_type = ''booking'', confidence = 0.9\<rparr>,
      \<lparr>email = ''info@show.com'', source_url = url, contact_type = ''general'', confidence = 0.6\<rparr>] =
     [\<lparr>email = ''press@show.com'', source_url = url, contact_type = ''booking'', confidence = 0.9\<rparr>,
      \<lparr>email = ''info@show.com'', source_url = url, contact_type = ''general'', confidence = 0.6\<rparr>]"
  by (simp add: rank_contacts_def dedupe_def rank_key_def type_priority_def)

text \<open>
  C4. Let the homepage be the only page of a site that can be fetched, let its one mail
  link be \<open>mailto:press@show.com\<close> with the text \<open>Press\<close>, and let the scan of its text
  find \<open>press@show.com\<close> (in the link) and \<open>info@show.com\<close>. Then \<open>find_contacts\<close> returns
  as primary \<open>press@show.com\<close>, booking, 0.9, and as backup \<open>info@show.com\<close>, general,
  0.6, both with the URL of the homepage as it was fetched (the site root without
  trailing slashes). \<open>info@show.com\<close> passes the validator: the deny-list of
  \<open>_is_valid_email\<close> has no \<open>info@\<close>, which only the list of the enrichment path has.
\<close>

theorem homepage_only_scenario:
  assumes "base \<noteq> []"
    and "\<forall>path \<in> set paths_to_check. path \<noteq> [] \<longrightarrow> fetch_failed e (rstrip_slash base @ path)"
    and "session_get e (rstrip_slash base) = Inr \<lparr>status = 200, resp_text = Inr html\<rparr>"
    and "soup_a e html = Inr [link]"
    and "href link = ''mailto:press@show.com''" and "get_text link = ''Press''"
    and "findall email_pattern html = [''press@show.com'', ''info@show.com'']"
  shows "find_contacts e (Some base) podcast_name social_links =
           Inr (Some \<lparr>email = ''press@show.com'', source_url = rstrip_slash base,
                       contact_type = ''booking'', confidence = 0.9\<rparr>,
                Some \<lparr>email = ''info@show.com'', source_url = rstrip_slash base,
                       contact_type = ''general'', confidence = 0.6\<rparr>)
         \<and> is_valid_email ''info@show.com''
         \<and> \<not> any_in skip_patterns (lower ''info@show.com'')
         \<and> ''info@'' \<notin> set skip_patterns
         \<and> ''info@'' \<in> set contact_skip_patterns"
proof -
  have failed: "page_contacts e (rstrip_slash base @ path) = []"
    if "path \<in> set paths_to_check" and "path \<noteq> []" for path
    using assms(2) that by (simp add: page_contacts_failed)
  have home: "page_contacts e (rstrip_slash base @ []) =
     [\<lparr>email = ''press@show.com'', source_url = rstrip_slash base,
       contact_type = ''booking'', confidence = 0.9\<rparr>,
      \<lparr>email = ''info@show.com'', source_url = rstrip_slash base,
       contact_type = ''general'', confidence = 0.6\<rparr>]"
    using press_page_contacts [OF assms(3-7)] by simp
  have "concat (map (\<lambda>path. page_contacts e (rstrip_slash base @ path)) paths_to_check)
      = page_contacts e (rstrip_slash base @ [])"
    using failed by (simp add: paths_to_check_def)
  with home have scan: "scan_website e base =
     Inr [\<lparr>email = ''press@show.com'', source_url = rstrip_slash base,
            contact_type = ''booking'', confidence = 0.9\<rparr>,
          \<lparr>email = ''info@show.com'', source_url = rstrip_slash base,
            contact_type = ''general'', confidence = 0.6\<rparr>]"
    by (simp only: scan_website_eq)
  define press where
    "press = \<lparr>email = ''press@show.com'', source_url = rstrip_slash base,
               contact_type = ''booking'', confidence = 0.9\<rparr>"
  define info where
    "info = \<lparr>email = ''info@show.com'', source_url = rstrip_slash base,
              contact_type = ''general'', confidence = 0.6\<rparr>"
  have ranked: "rank_contacts [press, info] = [press, info]"
    unfolding press_def info_def by (rule rank_press_info)
  from scan have "scan_website e base = Inr [press, info]"
    by (simp only: press_def info_def)
  with assms(1) ranked
  have "find_contacts e (Some base) podcast_name social_links = Inr (Some press, Some info)"
    by (simp add: find_contacts_def truthy_def check_directories_def)
  then have "find_contacts e (Some base) podcast_name social_links =
           Inr (Some \<lparr>email = ''press@show.com'', source_url = rstrip_slash base,
                       contact_type = ''booking'', confidence = 0.9\<rparr>,
                Some \<lparr>email = ''info@show.com'', source_url = rstrip_slash base,
                       contact_type = ''general'', confidence = 0.6\<rparr>)"
    by (simp only: press_def info_def)
  moreover have "''info@'' \<notin> set skip_patterns" "''info@'' \<in> set contact_skip_patterns"
    by (simp_all add: skip_patterns_def contact_skip_patterns_def)
  ultimately show ?thesis
    using info_facts(1,4) by simp
qed

lemma show_env_home:
  "rstrip_slash ''https://show.com/'' = ''https://show.com''"
  "soup_a show_env home_html = Inr [press_link]"
  "href press_link = ''mailto:press@show.com''" "get_text press_link = ''Press''"
  by (simp_all add: rstrip_slash_def show_env_def press_link_def)

lemma show_env_others:
  "\<forall>path \<in> set paths_to_check. path \<noteq> []
     \<longrightarrow> fetch_failed show_env (rstrip_slash ''https://show.com/'' @ path)"
  by (simp add: show_env_home(1) paths_to_check_def fetch_failed_def show_env_def)

lemma show_env_fetches:
  "map (\<lambda>path. fetch_failed show_env (rstrip_slash ''https://show.com/'' @ path)) paths_to_check
     = [True, True, True, True, True, True, True, True, True, False]"
  by (simp add: show_env_home(1) paths_to_check_def fetch_failed_def show_env_def)

theorem homepage_only_scenario_witness:
  "map (\<lambda>path. fetch_failed show_env (rstrip_slash ''https://show.com/'' @ path)) paths_to_check
     = [True, True, True, True, True, True, True, True, True, False]
   \<and> session_get show_env ''https://show.com'' = Inr \<lparr>status = 200, resp_text = Inr home_html\<rparr>
   \<and> soup_a show_env home_html = Inr [press_link]
   \<and> findall email_pattern home_html = [''press@show.com'', ''info@show.com'']
   \<and> find_contacts show_env (Some ''https://show.com/'') ''Show'' None =
        Inr (Some press_contact, Some info_contact)"
proof -
  have home: "session_get show_env (rstrip_slash ''https://show.com/'') =
      Inr \<lparr>status = 200, resp_text = Inr home_html\<rparr>"
    by (simp add: show_env_home(1) show_env_def)
  have "''https://show.com/'' \<noteq> []"
    by simp
  from homepage_only_scenario [OF this show_env_others home show_env_home(2-4) home_findall,
      of "''Show''" None]
  have "find_contacts show_env (Some ''https://show.com/'') ''Show'' None =
        Inr (Some press_contact, Some info_contact)"
    by (simp only: show_env_home(1) press_contact_def info_contact_def)
  with show_env_fetches home show_env_home(2) home_findall show ?thesis
    by (simp only: show_env_home(1) simp_thms)
qed

subsection \<open>A site root made of a slash\<close>





section \<open>Enrichment\<close>







section \<open>The dedupe key\<close>















end
